theory Spec2Isabelle
  imports Main "HOL-Library.Log_Nat" "HOL-Library.Code_Target_Nat"
begin

section \<open>JavaScript numbers\<close>

text \<open>
  Every number of the program is an IEEE-754 binary64 value. The embedding represents a
  finite double by its exact rational value; \<open>round53\<close> rounds a rational to the nearest
  double, ties to the even significand, with the gradual underflow of binary64
  (least exponent \<open>-1022\<close>). The two zeros are identified: the program never divides by a
  zero and \<open>===\<close>, \<open>toFixed\<close> and \<open>JSON.stringify\<close> do not tell them apart. Infinities
  and NaN are not represented: they need a result of magnitude \<open>2^1024\<close> or a division
  by zero, which asks for \<open>decimalPlaces > 308\<close>.
\<close>

type_synonym double = rat

definition binade :: "rat \<Rightarrow> int" where
  "binade x =
     (let (p, q) = quotient_of \<bar>x\<bar>; d = bitlen p - bitlen q
      in if 2 powi d \<le> \<bar>x\<bar> then d else d - 1)"

definition rne :: "rat \<Rightarrow> int" where
  "rne x =
     (let n = \<lfloor>x\<rfloor>; r = x - of_int n
      in if r < 1 / 2 then n
         else if 1 / 2 < r then n + 1
         else if even n then n else n + 1)"

text \<open>The gap between neighbouring doubles at \<open>x\<close>: \<open>2^(e - 52)\<close> for the exponent \<open>e\<close> of
  \<open>x\<close>, and \<open>2^(-1074)\<close> for the subnormal numbers.\<close>

definition ulp :: "rat \<Rightarrow> rat" where
  "ulp x = 2 powi (max (binade x) (- 1022) - 52)"

definition round53 :: "rat \<Rightarrow> double" where
  "round53 x = (if x = 0 then 0 else of_int (rne (x / ulp x)) * ulp x)"

definition fl_add :: "double \<Rightarrow> double \<Rightarrow> double" where
  "fl_add x y = round53 (x + y)"

definition fl_sub :: "double \<Rightarrow> double \<Rightarrow> double" where
  "fl_sub x y = round53 (x - y)"

definition fl_mul :: "double \<Rightarrow> double \<Rightarrow> double" where
  "fl_mul x y = round53 (x * y)"

definition fl_div :: "double \<Rightarrow> double \<Rightarrow> double" where
  "fl_div x y = round53 (x / y)"

definition js_truncate :: "rat \<Rightarrow> int" where
  "js_truncate x = (if 0 \<le> x then \<lfloor>x\<rfloor> else \<lceil>x\<rceil>)"

text \<open>The remainder operator \<open>%\<close>: exact, with the sign of the dividend.\<close>

definition js_rem :: "double \<Rightarrow> double \<Rightarrow> double" where
  "js_rem x y = x - y * of_int (js_truncate (x / y))"

text \<open>\<open>ToInt32\<close>, applied by \<open>| 0\<close> and by a store into an \<open>Int32Array\<close>.\<close>

definition ToInt32 :: "double \<Rightarrow> int" where
  "ToInt32 x =
     (let k = js_truncate x mod 2 ^ 32
      in if 2 ^ 31 \<le> k then k - 2 ^ 32 else k)"

definition Math_floor :: "double \<Rightarrow> double" where
  "Math_floor x = of_int \<lfloor>x\<rfloor>"

definition Math_ceil :: "double \<Rightarrow> double" where
  "Math_ceil x = of_int \<lceil>x\<rceil>"

definition Math_min :: "double \<Rightarrow> double \<Rightarrow> double" where
  "Math_min x y = (if x \<le> y then x else y)"

text \<open>
  \<open>Math.pow(10, decimalPlaces)\<close>. ECMAScript leaves the last bit of \<open>Math.pow\<close> to the
  engine; the model takes the correctly rounded power, which is the power itself as
  long as \<open>10^decimalPlaces\<close> is a double (up to \<open>10^22\<close>). Above that an engine may
  return a neighbouring double. What is proved about the loop holds for any multiplier;
  where the value of the multiplier matters there are at most 15 digits.
\<close>

definition Math_pow10 :: "nat \<Rightarrow> double" where
  "Math_pow10 decimalPlaces = round53 (10 ^ decimalPlaces)"

subsection \<open>Fixed-point formatting\<close>

function decimal :: "nat \<Rightarrow> string" where
  "decimal n =
     (if n < 10 then [char_of (48 + n)]
      else decimal (n div 10) @ [char_of (48 + n mod 10)])"
  by pat_completeness auto
termination
  by (relation "measure id") auto

declare decimal.simps [simp del]

text \<open>
  \<open>Number.prototype.toFixed\<close> of ECMAScript for a finite number below \<open>10^21\<close> in
  magnitude and at most 100 digits: the integer \<open>n\<close> nearest to \<open>x * 10^f\<close> (the larger
  one on a tie), printed with the point before its last \<open>f\<close> digits. The result is
  \<open>None\<close> outside that range, where the method throws a \<open>RangeError\<close> (\<open>f > 100\<close>) or
  switches to exponent notation.
\<close>

definition toFixed_js :: "double \<Rightarrow> nat \<Rightarrow> string option" where
  "toFixed_js x f =
     (if 100 < f \<or> 10 ^ 21 \<le> \<bar>x\<bar> then None
      else let n = nat \<lfloor>\<bar>x\<bar> * 10 ^ f + 1 / 2\<rfloor>;
               m = decimal n;
               m = (if length m \<le> f then replicate (f + 1 - length m) (CHR ''0'') @ m else m);
               k = length m;
               m = (if f = 0 then m else take (k - f) m @ ''.'' @ drop (k - f) m)
           in Some (if x < 0 then ''-'' @ m else m))"

section \<open>The worker: \<open>verifyChunk\<close>\<close>

text \<open>
  The codec under test is the JavaScript platform itself. It is a parameter of the
  model: \<open>toFixed p x f\<close> is \<open>x.toFixed(f)\<close> for \<open>f \<le> 100\<close>, \<open>Number p s\<close> is
  \<open>Number(s)\<close> and \<open>JSON_roundtrip p x\<close> is \<open>JSON.parse(JSON.stringify(x))\<close>.
\<close>

record platform =
  toFixed :: "double \<Rightarrow> nat \<Rightarrow> string"
  Number :: "string \<Rightarrow> double"
  JSON_roundtrip :: "double \<Rightarrow> double"

datatype js_error = RangeError

text \<open>The two messages a worker posts: \<open>{error: true, value, serialized, deserialized}\<close>
  and \<open>{completed: true}\<close>.\<close>

datatype message =
  Error_msg (msg_value: double) (msg_serialized: double) (msg_deserialized: double)
| Completed_msg

text \<open>
  What a worker does to the outside, in program order: the start of the loop body for an
  index (instrumentation only), a store into the shared \<open>Int32Array\<close>, \<open>Atomics.notify\<close>,
  \<open>parentPort.postMessage\<close>, and an exception that nothing catches.
\<close>

datatype effect =
  Check nat
| Store nat int
| Notify nat
| PostMessage message
| Uncaught js_error

record wstate =
  batchProgress :: nat
  progressArray :: "int list"
  effects :: "effect list"

definition emit :: "effect list \<Rightarrow> wstate \<Rightarrow> wstate" where
  "emit es st = st\<lparr>effects := effects st @ es\<rparr>"

definition intPart :: "nat \<Rightarrow> double \<Rightarrow> int" where
  "intPart i multiplier = ToInt32 (fl_div (of_nat i) multiplier)"

definition fracPart :: "nat \<Rightarrow> double \<Rightarrow> double" where
  "fracPart i multiplier = js_rem (of_nat i) multiplier"

definition valueAt :: "nat \<Rightarrow> double \<Rightarrow> double" where
  "valueAt i multiplier =
     fl_add (of_int (intPart i multiplier)) (fl_div (fracPart i multiplier) multiplier)"

definition serialize :: "platform \<Rightarrow> double \<Rightarrow> nat \<Rightarrow> double" where
  "serialize p v decimalPlaces = Number p (toFixed p v decimalPlaces)"

text \<open>The condition of the \<open>if\<close> in the loop body.\<close>

definition mismatch :: "platform \<Rightarrow> double \<Rightarrow> nat \<Rightarrow> bool" where
  "mismatch p v decimalPlaces =
     (let serialized = serialize p v decimalPlaces;
          deserialized = JSON_roundtrip p serialized
      in serialized \<noteq> deserialized
         \<or> toFixed p serialized decimalPlaces \<noteq> toFixed p v decimalPlaces)"

text \<open>The value stored at a batch boundary:
  \<open>Math.floor((i - start) / totalInChunk * 1000000)\<close>, converted by the \<open>Int32Array\<close>.\<close>

definition batchValue :: "nat \<Rightarrow> double \<Rightarrow> nat \<Rightarrow> int" where
  "batchValue start totalInChunk i =
     ToInt32 (Math_floor
       (fl_mul (fl_div (fl_sub (of_nat i) (of_nat start)) totalInChunk) 1000000))"

text \<open>
  One turn of the loop body. \<open>Inl\<close> is the end of the worker (the \<open>return\<close> after the
  error message, or an uncaught exception); \<open>Inr\<close> goes on to \<open>i++\<close>. \<open>toFixed\<close> throws
  a \<open>RangeError\<close> for more than 100 digits, \<open>Atomics.notify\<close> for an index outside the
  array (the store before it is dropped silently).
\<close>

definition iteration ::
  "platform \<Rightarrow> nat \<Rightarrow> nat \<Rightarrow> nat \<Rightarrow> double \<Rightarrow> double \<Rightarrow> nat \<Rightarrow> nat \<Rightarrow> wstate
     \<Rightarrow> wstate + wstate" where
  "iteration p start decimalPlaces workerId multiplier totalInChunk batchSize i st =
     (let v = valueAt i multiplier;
          st = emit [Check i] st
      in if 100 < decimalPlaces then Inl (emit [Uncaught RangeError] st)
         else if mismatch p v decimalPlaces then
           Inl (emit [PostMessage (Error_msg v (serialize p v decimalPlaces)
                  (JSON_roundtrip p (serialize p v decimalPlaces)))] st)
         else
           let st = st\<lparr>batchProgress := batchProgress st + 1\<rparr>
           in if batchProgress st = batchSize then
                (let x = batchValue start totalInChunk i;
                     st = st\<lparr>progressArray := (progressArray st)[workerId := x]\<rparr>
                 in if workerId < length (progressArray st)
                    then Inr (emit [Store workerId x, Notify workerId] (st\<lparr>batchProgress := 0\<rparr>))
                    else Inl (emit [Uncaught RangeError] st))
              else Inr st)"

text \<open>
  The loop \<open>for (let i = start; i < end; i++)\<close>. The counter of the source is a double;
  the model counts in \<open>nat\<close>, which is what \<open>i++\<close> does below \<open>2^53\<close>. At \<open>2^53\<close> the
  increment of the source returns \<open>2^53\<close> again, so a chunk that reaches beyond \<open>2^53\<close>
  never ends there: the model is the worker for chunks with \<open>end \<le> 2^53\<close>, and the
  theorems about chunks of more than one index assume this bound.
\<close>

function loop ::
  "platform \<Rightarrow> nat \<Rightarrow> nat \<Rightarrow> nat \<Rightarrow> nat \<Rightarrow> double \<Rightarrow> double \<Rightarrow> nat \<Rightarrow> nat \<Rightarrow> wstate
     \<Rightarrow> wstate + wstate" where
  "loop p start end' decimalPlaces workerId multiplier totalInChunk batchSize i st =
     (if i < end' then
        (case iteration p start decimalPlaces workerId multiplier totalInChunk batchSize i st of
           Inl st' \<Rightarrow> Inl st'
         | Inr st' \<Rightarrow>
             loop p start end' decimalPlaces workerId multiplier totalInChunk batchSize (Suc i) st')
      else Inr st)"
  by pat_completeness auto
termination
  by (relation "measure (\<lambda>(p, start, end', dp, w, m, t, b, i, st). end' - i)") auto

text \<open>The closing \<open>progressArray[workerId] += batchProgress / totalInChunk\<close> with its
  notification.\<close>

definition flush :: "nat \<Rightarrow> double \<Rightarrow> wstate \<Rightarrow> wstate + wstate" where
  "flush workerId totalInChunk st =
     (if workerId < length (progressArray st) then
        (let x = ToInt32 (fl_add (of_int (progressArray st ! workerId))
                   (fl_div (of_nat (batchProgress st)) totalInChunk))
         in Inr (emit [Store workerId x, Notify workerId]
                  (st\<lparr>progressArray := (progressArray st)[workerId := x]\<rparr>)))
      else Inl (emit [Uncaught RangeError] st))"

definition verifyChunk_with ::
  "nat \<Rightarrow> platform \<Rightarrow> nat \<Rightarrow> nat \<Rightarrow> nat \<Rightarrow> int list \<Rightarrow> nat \<Rightarrow> wstate" where
  "verifyChunk_with batchSize p start end' decimalPlaces progressBuffer workerId =
     (let multiplier = Math_pow10 decimalPlaces;
          totalInChunk = fl_sub (of_nat end') (of_nat start);
          st = \<lparr>batchProgress = 0, progressArray = progressBuffer, effects = []\<rparr>
      in case loop p start end' decimalPlaces workerId multiplier totalInChunk batchSize start st of
           Inl st \<Rightarrow> st
         | Inr st \<Rightarrow>
             (case (if 0 < batchProgress st then flush workerId totalInChunk st else Inr st) of
                Inl st \<Rightarrow> st
              | Inr st \<Rightarrow> emit [PostMessage Completed_msg] st))"

definition verifyChunk :: "platform \<Rightarrow> nat \<Rightarrow> nat \<Rightarrow> nat \<Rightarrow> int list \<Rightarrow> nat \<Rightarrow> wstate" where
  "verifyChunk = verifyChunk_with 10000000"

text \<open>Projections of a worker's trace: the messages posted, the indices whose loop body was
  entered, the values stored into one slot, and the array after the stores.\<close>

primrec messages :: "effect list \<Rightarrow> message list" where
  "messages [] = []"
| "messages (e # es) = (case e of PostMessage m \<Rightarrow> m # messages es | _ \<Rightarrow> messages es)"

primrec checks :: "effect list \<Rightarrow> nat list" where
  "checks [] = []"
| "checks (e # es) = (case e of Check i \<Rightarrow> i # checks es | _ \<Rightarrow> checks es)"

primrec stores :: "nat \<Rightarrow> effect list \<Rightarrow> int list" where
  "stores w [] = []"
| "stores w (e # es) =
     (case e of Store w' x \<Rightarrow> (if w' = w then x # stores w es else stores w es)
      | _ \<Rightarrow> stores w es)"

primrec replay :: "effect list \<Rightarrow> int list \<Rightarrow> int list" where
  "replay [] pa = pa"
| "replay (e # es) pa = replay es (case e of Store w x \<Rightarrow> pa[w := x] | _ \<Rightarrow> pa)"

text \<open>The effects of one turn of the loop whose check passes, in a run that started with an
  empty batch at \<open>start\<close>.\<close>

definition pass_effects :: "nat \<Rightarrow> nat \<Rightarrow> double \<Rightarrow> nat \<Rightarrow> nat \<Rightarrow> effect list" where
  "pass_effects batchSize start totalInChunk workerId j =
     Check j #
     (if Suc (j - start) mod batchSize = 0
      then [Store workerId (batchValue start totalInChunk j), Notify workerId] else [])"

section \<open>The coordinator: \<open>verifyRangeParallel\<close>\<close>

definition totalNumbers :: "nat \<Rightarrow> nat \<Rightarrow> double" where
  "totalNumbers maxInteger decimalPlaces =
     fl_sub (fl_mul (of_nat maxInteger) (Math_pow10 decimalPlaces)) 1"

definition chunkSize :: "double \<Rightarrow> nat \<Rightarrow> double" where
  "chunkSize totalN numCPUs = Math_ceil (fl_div totalN (of_nat numCPUs))"

definition chunk_start :: "double \<Rightarrow> nat \<Rightarrow> nat \<Rightarrow> double" where
  "chunk_start totalN numCPUs i = fl_mul (of_nat i) (chunkSize totalN numCPUs)"

definition chunk_end :: "double \<Rightarrow> nat \<Rightarrow> nat \<Rightarrow> double" where
  "chunk_end totalN numCPUs i =
     Math_min (fl_mul (of_nat (i + 1)) (chunkSize totalN numCPUs)) totalN"

text \<open>
  The bounds handed to a worker are integer-valued doubles; the worker model counts in
  \<open>nat\<close>. A negative end (only \<open>-1\<close>, for \<open>maxInteger = 0\<close>) becomes \<open>0\<close>, which leaves
  the chunk empty as in the source.
\<close>

definition index_of :: "double \<Rightarrow> nat" where
  "index_of x = nat \<lfloor>x\<rfloor>"



text \<open>\<open>new Int32Array(new SharedArrayBuffer(numCPUs * 4))\<close>: one slot per worker, zeroed.\<close>

definition progressBuffer0 :: "nat \<Rightarrow> int list" where
  "progressBuffer0 numCPUs = replicate numCPUs 0"

definition worker :: "platform \<Rightarrow> double \<Rightarrow> nat \<Rightarrow> nat \<Rightarrow> nat \<Rightarrow> wstate" where
  "worker p totalN numCPUs decimalPlaces i =
     verifyChunk p (index_of (chunk_start totalN numCPUs i)) (index_of (chunk_end totalN numCPUs i))
       decimalPlaces (progressBuffer0 numCPUs) i"

text \<open>
  What reaches the main thread from worker \<open>w\<close>: its messages, the \<open>error\<close> event of an
  uncaught exception, and the \<open>exit\<close> event with the exit code (1 after an uncaught
  exception, 0 otherwise).
\<close>

datatype event =
  Message nat message
| Error_event nat js_error
| Exit nat int

primrec worker_events :: "nat \<Rightarrow> effect list \<Rightarrow> event list" where
  "worker_events w [] = [Exit w 0]"
| "worker_events w (e # es) =
     (case e of
        PostMessage m \<Rightarrow> Message w m # worker_events w es
      | Uncaught err \<Rightarrow> [Error_event w err, Exit w 1]
      | _ \<Rightarrow> worker_events w es)"

text \<open>The lines the coordinator prints, and how the process stands.\<close>

datatype console_line =
  Error_detected double double double
| Worker_completed double double
| Worker_error js_error
| Worker_stopped int
| All_tests_passed double

datatype status = Running | Process_exit int | Finished

record coordinator =
  console :: "console_line list"
  exited :: "nat set"
  status :: status

definition print :: "console_line \<Rightarrow> coordinator \<Rightarrow> coordinator" where
  "print line c = c\<lparr>console := console c @ [line]\<rparr>"

text \<open>
  One event on the main thread. The \<open>message\<close> listener prints the diagnostic and calls
  \<open>process.exit(1)\<close> for an error message and prints the chunk for a completion; the
  \<open>error\<close> listener prints; the two \<open>exit\<close> listeners print a non-zero code and settle
  the worker's promise, and once every promise is settled the continuation of
  \<open>Promise.all\<close> prints the success lines and the process ends with code 0.
\<close>

definition handle :: "double \<Rightarrow> nat \<Rightarrow> event \<Rightarrow> coordinator \<Rightarrow> coordinator" where
  "handle totalN numCPUs ev c =
     (if status c \<noteq> Running then c
      else case ev of
        Message w (Error_msg v serialized deserialized) \<Rightarrow>
          (print (Error_detected v serialized deserialized) c)\<lparr>status := Process_exit 1\<rparr>
      | Message w Completed_msg \<Rightarrow>
          print (Worker_completed (chunk_start totalN numCPUs w) (chunk_end totalN numCPUs w)) c
      | Error_event w err \<Rightarrow> print (Worker_error err) c
      | Exit w code \<Rightarrow>
          (let c = (if code \<noteq> 0 then print (Worker_stopped code) c else c);
               c = c\<lparr>exited := insert w (exited c)\<rparr>
           in if {0..<numCPUs} \<subseteq> exited c
              then (print (All_tests_passed totalN) c)\<lparr>status := Finished\<rparr>
              else c))"

definition verifyRangeParallel :: "double \<Rightarrow> nat \<Rightarrow> event list \<Rightarrow> coordinator" where
  "verifyRangeParallel totalN numCPUs evs =
     foldl (\<lambda>c ev. handle totalN numCPUs ev c) \<lparr>console = [], exited = {}, status = Running\<rparr> evs"

section \<open>Codecs for the examples\<close>

text \<open>A codec whose formatting goes wrong from the value \<open>c\<close> on, one whose JSON round
  trip never returns what it was given, and one the check never faults.\<close>

definition codec_below :: "rat \<Rightarrow> platform" where
  "codec_below c =
     \<lparr>toFixed = (\<lambda>x f. if x < c then ''ok'' else ''bad''), Number = (\<lambda>s. 0),
      JSON_roundtrip = (\<lambda>x. x)\<rparr>"

definition codec_lossy :: platform where
  "codec_lossy = \<lparr>toFixed = (\<lambda>x f. []), Number = (\<lambda>s. 0), JSON_roundtrip = (\<lambda>x. x + 1)\<rparr>"

definition codec_exact :: platform where
  "codec_exact = \<lparr>toFixed = (\<lambda>x f. ''0''), Number = (\<lambda>s. 0), JSON_roundtrip = (\<lambda>x. x)\<rparr>"

section \<open>Rounding to the nearest double\<close>

lemma pow2_pos [simp]: "(0::rat) < 2 powi e"
  by (simp add: zero_less_power_int)

lemma binade_raw:
  assumes "x \<noteq> 0" and "quotient_of \<bar>x\<bar> = (p, q)"
  shows "2 powi (bitlen p - bitlen q - 1) < \<bar>x\<bar> \<and> \<bar>x\<bar> < 2 powi (bitlen p - bitlen q + 1)"
proof -
  have q: "0 < q" using assms(2) by (rule quotient_of_denom_pos)
  have x: "\<bar>x\<bar> = of_int p / of_int q" using assms(2) by (rule quotient_of_div)
  have p: "0 < p"
  proof -
    have "0 < \<bar>x\<bar>" using assms(1) by simp
    then have "(0::rat) < of_int p / of_int q" by (simp add: x)
    then show ?thesis using q by (simp add: zero_less_divide_iff)
  qed
  define a where "a = bitlen p"
  define b where "b = bitlen q"
  have a1: "1 \<le> a" and b1: "1 \<le> b"
    using p q by (simp_all add: a_def b_def bitlen_alt_def)
  have pa: "2 ^ nat (a - 1) \<le> p" "p < 2 ^ nat a"
    using bitlen_bounds [OF p] by (simp_all add: a_def)
  have qb: "2 ^ nat (b - 1) \<le> q" "q < 2 ^ nat b"
    using bitlen_bounds [OF q] by (simp_all add: b_def)
  have pa': "(2::rat) powi (a - 1) \<le> of_int p" "(of_int p :: rat) < 2 powi a"
  proof -
    have "(2::rat) powi (a - 1) = of_int (2 ^ nat (a - 1))" "(2::rat) powi a = of_int (2 ^ nat a)"
      using a1 by (simp_all add: power_int_def)
    then show "(2::rat) powi (a - 1) \<le> of_int p" "(of_int p :: rat) < 2 powi a"
      using pa by (simp_all only: of_int_le_iff of_int_less_iff)
  qed
  have qb': "(2::rat) powi (b - 1) \<le> of_int q" "(of_int q :: rat) < 2 powi b"
  proof -
    have "(2::rat) powi (b - 1) = of_int (2 ^ nat (b - 1))" "(2::rat) powi b = of_int (2 ^ nat b)"
      using b1 by (simp_all add: power_int_def)
    then show "(2::rat) powi (b - 1) \<le> of_int q" "(of_int q :: rat) < 2 powi b"
      using qb by (simp_all only: of_int_le_iff of_int_less_iff)
  qed
  have up: "of_int p / of_int q < (2::rat) powi (a - b + 1)"
  proof -
    have "of_int p / of_int q < (2::rat) powi a / 2 powi (b - 1)"
      using p pa'(2) qb'(1) by (intro frac_less) simp_all
    also have "\<dots> = 2 powi (a - (b - 1))"
      by (simp add: power_int_diff)
    finally show ?thesis by (simp add: algebra_simps)
  qed
  have lo: "(2::rat) powi (a - b - 1) < of_int p / of_int q"
  proof -
    have "(2::rat) powi (a - 1) / 2 powi b < of_int p / of_int q"
      using q pa'(1) qb'(2) by (intro frac_less2) simp_all
    moreover have "(2::rat) powi (a - 1) / 2 powi b = 2 powi (a - 1 - b)"
      by (simp add: power_int_diff)
    ultimately show ?thesis by (simp add: algebra_simps)
  qed
  show ?thesis
    using up lo by (simp add: x a_def b_def)
qed

lemma binade_bounds:
  assumes "x \<noteq> 0"
  shows "2 powi binade x \<le> \<bar>x\<bar>" and "\<bar>x\<bar> < 2 powi (binade x + 1)"
proof -
  obtain p q where pq: "quotient_of \<bar>x\<bar> = (p, q)"
    by (cases "quotient_of \<bar>x\<bar>")
  define d where "d = bitlen p - bitlen q"
  have raw: "2 powi (d - 1) < \<bar>x\<bar>" "\<bar>x\<bar> < 2 powi (d + 1)"
    using binade_raw [OF assms pq] by (simp_all add: d_def)
  have b: "binade x = (if 2 powi d \<le> \<bar>x\<bar> then d else d - 1)"
    by (simp add: binade_def pq d_def)
  show "2 powi binade x \<le> \<bar>x\<bar>"
    using raw by (simp add: b)
  show "\<bar>x\<bar> < 2 powi (binade x + 1)"
    using raw by (simp add: b)
qed

lemma pow2_mono: "a \<le> b \<Longrightarrow> (2::rat) powi a \<le> 2 powi b"
  by (rule power_int_increasing) simp_all

lemma pow2_less_cancel: "(2::rat) powi a < 2 powi b \<Longrightarrow> a < b"
  using pow2_mono [of b a] by (cases "a < b") simp_all

lemma binade_unique:
  assumes "2 powi e \<le> \<bar>x\<bar>" and "\<bar>x\<bar> < 2 powi (e + 1)"
  shows "binade x = e"
proof -
  have "0 < \<bar>x\<bar>"
    using assms(1) by (rule less_le_trans [OF pow2_pos])
  then have x: "x \<noteq> 0"
    by simp
  have "2 powi e < (2::rat) powi (binade x + 1)"
    using assms(1) binade_bounds(2) [OF x] by simp
  moreover have "(2::rat) powi binade x < 2 powi (e + 1)"
    using assms(2) binade_bounds(1) [OF x] by simp
  ultimately show ?thesis
    using pow2_less_cancel [of e "binade x + 1"] pow2_less_cancel [of "binade x" "e + 1"] by simp
qed

lemma binade_mono:
  assumes "0 < x" and "x \<le> y"
  shows "binade x \<le> binade y"
proof -
  have "2 powi binade x \<le> x" and "y < 2 powi (binade y + 1)"
    using assms binade_bounds [of x] binade_bounds [of y] by simp_all
  then have "(2::rat) powi binade x < 2 powi (binade y + 1)"
    using assms(2) by simp
  then show ?thesis
    using pow2_less_cancel by fastforce
qed

lemma rne_of_int [simp]: "rne (of_int k) = k"
  by (simp add: rne_def)

lemma rne_range: "\<lfloor>x\<rfloor> \<le> rne x" "rne x \<le> \<lfloor>x\<rfloor> + 1"
  by (simp_all add: rne_def Let_def)


lemma rne_mono:
  assumes "x \<le> y"
  shows "rne x \<le> rne y"
proof (cases "\<lfloor>x\<rfloor> = \<lfloor>y\<rfloor>")
  case True
  with assms show ?thesis
    by (auto simp: rne_def Let_def)
next
  case False
  then have "\<lfloor>x\<rfloor> + 1 \<le> \<lfloor>y\<rfloor>"
    using floor_mono [OF assms] by simp
  then show ?thesis
    using rne_range(2) [of x] rne_range(1) [of y] by simp
qed

lemma rne_ge: "of_int k \<le> x \<Longrightarrow> k \<le> rne x"
  using rne_mono [of "of_int k" x] by simp

lemma rne_le: "x \<le> of_int k \<Longrightarrow> rne x \<le> k"
  using rne_mono [of x "of_int k"] by simp

lemma ulp_pos [simp]: "0 < ulp x"
  by (simp add: ulp_def)

lemma ulp_nonneg [simp]: "0 \<le> ulp x"
  using ulp_pos [of x] by (rule less_imp_le)

lemma ulp_nonzero [simp]: "ulp x \<noteq> 0"
  using ulp_pos [of x] by (rule less_imp_neq [symmetric])

lemma pow2_split53: "(2::rat) powi (e + 1) = 9007199254740992 * 2 powi (e - 52)"
proof -
  have "e + 1 = 53 + (e - 52)"
    by simp
  then have "(2::rat) powi (e + 1) = 2 powi (53 + (e - 52))"
    by (rule arg_cong)
  also have "\<dots> = 2 powi 53 * 2 powi (e - 52)"
    by (rule power_int_add) simp
  finally show ?thesis
    by simp
qed

lemma pow2_split52: "(2::rat) powi e = 4503599627370496 * 2 powi (e - 52)"
proof -
  have "e = 52 + (e - 52)"
    by simp
  then have "(2::rat) powi e = 2 powi (52 + (e - 52))"
    by (rule arg_cong)
  also have "\<dots> = 2 powi 52 * 2 powi (e - 52)"
    by (rule power_int_add) simp
  finally show ?thesis
    by simp
qed

lemma round53_0 [simp]: "round53 0 = 0"
  by (simp add: round53_def)

lemma round53_nonneg:
  assumes "0 \<le> x"
  shows "0 \<le> round53 x"
proof -
  have "0 \<le> rne (x / ulp x)"
    using assms by (intro rne_ge) simp
  then show ?thesis
    by (simp add: round53_def)
qed

lemma round53_exact:
  assumes "x / ulp x = of_int k"
  shows "round53 x = x"
proof (cases "x = 0")
  case False
  have "of_int (rne (x / ulp x)) * ulp x = x / ulp x * ulp x"
    by (simp add: assms)
  then show ?thesis
    using False by (simp add: round53_def)
qed simp

lemma round53_upper:
  assumes "0 < x"
  shows "round53 x \<le> 2 powi (max (binade x) (- 1022) + 1)"
proof -
  define e where "e = max (binade x) (- 1022)"
  have u: "ulp x = 2 powi (e - 52)"
    by (simp add: ulp_def e_def)
  have "x < 2 powi (binade x + 1)"
    using binade_bounds(2) [of x] assms by simp
  also have "\<dots> \<le> 2 powi (e + 1)"
    by (rule pow2_mono) (simp add: e_def)
  finally have "x / ulp x < 2 powi (e + 1) / 2 powi (e - 52)"
    by (simp add: u divide_strict_right_mono)
  also have "\<dots> = 2 powi 53"
    by (simp add: power_int_diff [symmetric])
  finally have "x / ulp x \<le> of_int (2 ^ 53)"
    by simp
  then have "rne (x / ulp x) \<le> 2 ^ 53"
    by (rule rne_le)
  then have "(of_int (rne (x / ulp x)) :: rat) \<le> of_int (2 ^ 53)"
    by (simp only: of_int_le_iff)
  then have "of_int (rne (x / ulp x)) * ulp x \<le> 2 powi 53 * 2 powi (e - 52)"
    by (simp add: u)
  also have "\<dots> = 2 powi (e + 1)"
    by (simp add: pow2_split53 [of e])
  finally show ?thesis
    using assms by (simp add: round53_def e_def)
qed

lemma round53_lower:
  assumes "0 < x" and "- 1022 \<le> binade x"
  shows "2 powi binade x \<le> round53 x"
proof -
  define e where "e = binade x"
  have u: "ulp x = 2 powi (e - 52)"
    using assms(2) by (simp add: ulp_def e_def max_def)
  have "2 powi e \<le> x"
    using binade_bounds(1) [of x] assms by (simp add: e_def)
  then have "2 powi e / 2 powi (e - 52) \<le> x / ulp x"
    by (simp add: u divide_right_mono)
  moreover have "2 powi e / 2 powi (e - 52) = (2::rat) powi 52"
    by (simp add: power_int_diff [symmetric])
  ultimately have "of_int (2 ^ 52) \<le> x / ulp x"
    by simp
  then have "2 ^ 52 \<le> rne (x / ulp x)"
    by (rule rne_ge)
  then have "(of_int (2 ^ 52) :: rat) \<le> of_int (rne (x / ulp x))"
    by (simp only: of_int_le_iff)
  then have "2 powi 52 * 2 powi (e - 52) \<le> of_int (rne (x / ulp x)) * ulp x"
    by (simp add: u)
  moreover have "2 powi 52 * 2 powi (e - 52) = (2::rat) powi e"
    by (simp add: pow2_split52 [of e])
  ultimately show ?thesis
    using assms by (simp add: round53_def e_def)
qed

lemma round53_mono:
  assumes "0 \<le> x" and "x \<le> y"
  shows "round53 x \<le> round53 y"
proof (cases "x = 0")
  case True
  then show ?thesis
    using assms round53_nonneg [of y] by simp
next
  case False
  then have x: "0 < x" and y: "0 < y"
    using assms by simp_all
  define ex where "ex = max (binade x) (- 1022)"
  define ey where "ey = max (binade y) (- 1022)"
  have le: "ex \<le> ey"
    using binade_mono [OF x assms(2)] by (simp add: ex_def ey_def)
  show ?thesis
  proof (cases "ex = ey")
    case True
    then have u: "ulp x = ulp y"
      by (simp add: ulp_def ex_def ey_def)
    have "x / ulp y \<le> y / ulp y"
      using assms(2) by (simp add: divide_right_mono)
    then have "rne (x / ulp y) \<le> rne (y / ulp y)"
      by (rule rne_mono)
    then have "(of_int (rne (x / ulp y)) :: rat) \<le> of_int (rne (y / ulp y))"
      by (simp only: of_int_le_iff)
    then show ?thesis
      using x y by (simp add: round53_def u)
  next
    case False
    then have lt: "ex < ey"
      using le by simp
    then have biny: "- 1022 \<le> binade y" "ey = binade y"
      by (simp_all add: ex_def ey_def max_def split: if_splits)
    have "round53 x \<le> 2 powi (ex + 1)"
      using round53_upper [OF x] by (simp add: ex_def)
    also have "\<dots> \<le> 2 powi ey"
      using lt by (intro pow2_mono) simp
    also have "\<dots> \<le> round53 y"
      using round53_lower [OF y biny(1)] by (simp add: biny(2))
    finally show ?thesis .
  qed
qed

lemma pow2_le_cancel: "(2::rat) powi a \<le> 2 powi b \<Longrightarrow> a \<le> b"
  using power_int_strict_increasing [of b a "2::rat"] by (cases "a \<le> b") simp_all

lemma binade_nat:
  assumes "0 < n" and "n \<le> 2 ^ 53"
  shows "0 \<le> binade (of_nat n)" and "binade (of_nat n) \<le> 53"
proof -
  let ?x = "of_nat n :: rat"
  have x: "?x \<noteq> 0" "\<bar>?x\<bar> = ?x"
    using assms(1) by simp_all
  have "(2::rat) powi 0 \<le> ?x"
    using assms(1) by simp
  also have "?x < 2 powi (binade ?x + 1)"
    using binade_bounds(2) [OF x(1)] by (simp only: x(2))
  finally show "0 \<le> binade ?x"
    using pow2_less_cancel [of 0 "binade ?x + 1"] by simp
  have "2 powi binade ?x \<le> ?x"
    using binade_bounds(1) [OF x(1)] by (simp only: x(2))
  also have "?x \<le> of_nat (2 ^ 53)"
    using assms(2) by (simp only: of_nat_le_iff)
  also have "(of_nat (2 ^ 53) :: rat) = 2 powi 53"
    by simp
  finally show "binade ?x \<le> 53"
    by (rule pow2_le_cancel)
qed

lemma round53_nat:
  assumes "n \<le> 2 ^ 53"
  shows "round53 (of_nat n) = of_nat n"
proof (cases "n = 0")
  case False
  let ?x = "of_nat n :: rat"
  define e where "e = binade ?x"
  have e: "0 \<le> e" "e \<le> 53"
    using binade_nat [of n] False assms by (simp_all add: e_def)
  have u: "ulp ?x = 2 powi (e - 52)"
    using e(1) by (simp add: ulp_def e_def max_def)
  have x: "?x \<noteq> 0" "\<bar>?x\<bar> = ?x"
    using False by simp_all
  show ?thesis
  proof (cases "e \<le> 52")
    case True
    have "?x / ulp ?x = ?x * 2 powi (52 - e)"
      by (simp add: u power_int_diff field_simps)
    also have "(2::rat) powi (52 - e) = of_int (2 ^ nat (52 - e))"
      using True by (simp add: power_int_def)
    finally have "?x / ulp ?x = of_int (int n * 2 ^ nat (52 - e))"
      by simp
    then show ?thesis
      by (rule round53_exact)
  next
    case False
    then have e53: "e = 53"
      using e(2) by simp
    have "2 powi e \<le> ?x"
      using binade_bounds(1) [OF x(1)] by (simp only: x(2) e_def)
    then have "(of_nat (2 ^ 53) :: rat) \<le> ?x"
      by (simp add: e53)
    then have "2 ^ 53 \<le> n"
      by (simp only: of_nat_le_iff)
    then have n: "n = 2 ^ 53"
      using assms by simp
    have "ulp ?x = 2"
      by (simp add: u e53)
    then have "?x / ulp ?x = ?x / 2"
      by (simp only:)
    also have "\<dots> = of_int (2 ^ 52)"
      by (simp add: n)
    finally show ?thesis
      by (rule round53_exact)
  qed
qed simp







section \<open>The value of an index\<close>

lemma ToInt32_of_int:
  assumes "0 \<le> k" and "k < 2 ^ 31"
  shows "ToInt32 (of_int k) = k"
  using assms by (simp add: ToInt32_def js_truncate_def Let_def)

lemma round53_1 [simp]: "round53 1 = 1"
  using round53_nat [of 1] by simp

lemma round53_numeral: "numeral k \<le> (2::nat) ^ 53 \<Longrightarrow> round53 (numeral k) = numeral k"
  using round53_nat [of "numeral k"] by simp

lemma ToInt32_floor:
  assumes "0 \<le> y" and "y < 2 ^ 31"
  shows "ToInt32 y = \<lfloor>y\<rfloor>"
proof -
  have "0 \<le> \<lfloor>y\<rfloor>" "\<lfloor>y\<rfloor> < 2 ^ 31"
    using assms by (simp_all add: floor_less_iff)
  then show ?thesis
    using assms(1) by (simp add: ToInt32_def js_truncate_def Let_def)
qed









section \<open>The trace of a worker\<close>

declare loop.simps [simp del]

lemma messages_append [simp]: "messages (xs @ ys) = messages xs @ messages ys"
  by (induction xs) (auto split: effect.splits)

lemma checks_append [simp]: "checks (xs @ ys) = checks xs @ checks ys"
  by (induction xs) (auto split: effect.splits)

lemma stores_append [simp]: "stores w (xs @ ys) = stores w xs @ stores w ys"
  by (induction xs) (auto split: effect.splits)

lemma replay_append [simp]: "replay (xs @ ys) pa = replay ys (replay xs pa)"
  by (induction xs arbitrary: pa) auto

lemma length_replay [simp]: "length (replay es pa) = length pa"
  by (induction es arbitrary: pa) (auto split: effect.splits)

lemma messages_pass_effects [simp]:
  "messages (concat (map (pass_effects B start T w) js)) = []"
  by (induction js) (auto simp: pass_effects_def)

lemma checks_pass_effects [simp]:
  "checks (concat (map (pass_effects B start T w) js)) = js"
  by (induction js) (auto simp: pass_effects_def)

lemma messages_pass_effects1 [simp]: "messages (pass_effects B start T w j) = []"
  by (simp add: pass_effects_def)

lemma checks_pass_effects1 [simp]: "checks (pass_effects B start T w j) = [j]"
  by (simp add: pass_effects_def)

lemma iteration_throw:
  "100 < dp \<Longrightarrow> iteration p start dp w m T B i st = Inl (emit [Check i, Uncaught RangeError] st)"
  by (simp add: iteration_def emit_def Let_def)

lemma iteration_fail:
  assumes "dp \<le> 100" "mismatch p (valueAt i m) dp"
  shows "iteration p start dp w m T B i st =
     Inl (emit [Check i, PostMessage (Error_msg (valueAt i m) (serialize p (valueAt i m) dp)
            (JSON_roundtrip p (serialize p (valueAt i m) dp)))] st)"
  using assms by (simp add: iteration_def emit_def Let_def)

lemma iteration_pass:
  assumes "dp \<le> 100" "\<not> mismatch p (valueAt i m) dp" "w < length (progressArray st)"
    "start \<le> i" "batchProgress st = (i - start) mod B"
  shows "iteration p start dp w m T B i st =
     Inr (st\<lparr>batchProgress := (Suc i - start) mod B,
              progressArray := replay (pass_effects B start T w i) (progressArray st),
              effects := effects st @ pass_effects B start T w i\<rparr>)"
proof -
  have S: "Suc i - start = Suc (i - start)"
    using assms(4) by simp
  show ?thesis
    using assms(1,2,3,5)
    by (simp add: iteration_def emit_def Let_def pass_effects_def S mod_Suc)
qed

lemma loop_advance:
  assumes "dp \<le> 100" "w < length (progressArray st)" "start \<le> i"
    "batchProgress st = (i - start) mod B" "i \<le> k" "k \<le> end'"
    "\<forall>j. i \<le> j \<and> j < k \<longrightarrow> \<not> mismatch p (valueAt j m) dp"
  shows "loop p start end' dp w m T B i st =
     loop p start end' dp w m T B k
       (st\<lparr>batchProgress := (k - start) mod B,
           progressArray := replay (concat (map (pass_effects B start T w) [i..<k])) (progressArray st),
           effects := effects st @ concat (map (pass_effects B start T w) [i..<k])\<rparr>)"
  using assms
proof (induction "k - i" arbitrary: i st)
  case 0
  then have "i = k" by simp
  moreover have "st\<lparr>batchProgress := (i - start) mod B, progressArray := progressArray st,
     effects := effects st\<rparr> = st"
    using "0.prems"(4) by simp
  ultimately show ?case by simp
next
  case (Suc n)
  then have ik: "i < k" and ie: "i < end'" by simp_all
  let ?st' = "st\<lparr>batchProgress := (Suc i - start) mod B,
              progressArray := replay (pass_effects B start T w i) (progressArray st),
              effects := effects st @ pass_effects B start T w i\<rparr>"
  have it: "iteration p start dp w m T B i st = Inr ?st'"
    using Suc.prems ik by (intro iteration_pass) auto
  have step: "loop p start end' dp w m T B i st = loop p start end' dp w m T B (Suc i) ?st'"
    using ie it by (subst loop.simps) simp
  have IH: "loop p start end' dp w m T B (Suc i) ?st' =
     loop p start end' dp w m T B k
       (?st'\<lparr>batchProgress := (k - start) mod B,
           progressArray := replay (concat (map (pass_effects B start T w) [Suc i..<k])) (progressArray ?st'),
           effects := effects ?st' @ concat (map (pass_effects B start T w) [Suc i..<k])\<rparr>)"
    using Suc.prems Suc.hyps(2) ik by (intro Suc.hyps(1)) auto
  have upt: "[i..<k] = i # [Suc i..<k]"
    using ik by (simp add: upt_conv_Cons)
  show ?case
    unfolding step IH upt by simp
qed

text \<open>The whole worker when index \<open>k\<close> is the first one whose check fails.\<close>

lemma verifyChunk_with_fail:
  assumes "dp \<le> 100" "w < length pa" "start \<le> k" "k < end'"
    "\<forall>j. start \<le> j \<and> j < k \<longrightarrow> \<not> mismatch p (valueAt j (Math_pow10 dp)) dp"
    "mismatch p (valueAt k (Math_pow10 dp)) dp"
  shows "effects (verifyChunk_with B p start end' dp pa w) =
     concat (map (pass_effects B start (fl_sub (of_nat end') (of_nat start)) w) [start..<k]) @
     [Check k, PostMessage (Error_msg (valueAt k (Math_pow10 dp))
        (serialize p (valueAt k (Math_pow10 dp)) dp)
        (JSON_roundtrip p (serialize p (valueAt k (Math_pow10 dp)) dp)))]"
proof -
  let ?m = "Math_pow10 dp" and ?T = "fl_sub (of_nat end') (of_nat start)"
  let ?st = "\<lparr>batchProgress = 0, progressArray = pa, effects = []\<rparr>"
  let ?es = "concat (map (pass_effects B start ?T w) [start..<k])"
  let ?stk = "?st\<lparr>batchProgress := (k - start) mod B,
           progressArray := replay ?es (progressArray ?st), effects := effects ?st @ ?es\<rparr>"
  have "loop p start end' dp w ?m ?T B start ?st = loop p start end' dp w ?m ?T B k ?stk"
    using assms by (intro loop_advance) auto
  also have "\<dots> = Inl (emit [Check k, PostMessage (Error_msg (valueAt k ?m)
        (serialize p (valueAt k ?m) dp) (JSON_roundtrip p (serialize p (valueAt k ?m) dp)))] ?stk)"
    using assms(1,4,6) by (subst loop.simps) (simp add: iteration_fail)
  finally show ?thesis
    by (simp add: verifyChunk_with_def Let_def emit_def)
qed

text \<open>The whole worker when every check of the chunk passes.\<close>

lemma verifyChunk_with_pass:
  assumes "dp \<le> 100" "w < length pa"
    "\<forall>j. start \<le> j \<and> j < end' \<longrightarrow> \<not> mismatch p (valueAt j (Math_pow10 dp)) dp"
  shows "effects (verifyChunk_with B p start end' dp pa w) =
     concat (map (pass_effects B start (fl_sub (of_nat end') (of_nat start)) w) [start..<end']) @
     (if 0 < (end' - start) mod B
      then (let x = ToInt32 (fl_add
                   (of_int (replay (concat (map (pass_effects B start
                      (fl_sub (of_nat end') (of_nat start)) w) [start..<end'])) pa ! w))
                   (fl_div (of_nat ((end' - start) mod B)) (fl_sub (of_nat end') (of_nat start))))
            in [Store w x, Notify w])
      else []) @
     [PostMessage Completed_msg]"
    and "progressArray (verifyChunk_with B p start end' dp pa w) =
     replay (effects (verifyChunk_with B p start end' dp pa w)) pa"
proof -
  let ?m = "Math_pow10 dp" and ?T = "fl_sub (of_nat end') (of_nat start)"
  let ?st = "\<lparr>batchProgress = 0, progressArray = pa, effects = []\<rparr>"
  let ?es = "concat (map (pass_effects B start ?T w) [start..<end'])"
  let ?stk = "?st\<lparr>batchProgress := (end' - start) mod B,
           progressArray := replay ?es (progressArray ?st), effects := effects ?st @ ?es\<rparr>"
  have run: "loop p start end' dp w ?m ?T B start ?st = Inr ?stk"
  proof (cases "start \<le> end'")
    case True
    have "loop p start end' dp w ?m ?T B start ?st = loop p start end' dp w ?m ?T B end' ?stk"
      using assms True by (intro loop_advance) auto
    also have "\<dots> = Inr ?stk"
      by (subst loop.simps) simp
    finally show ?thesis .
  next
    case False
    then show ?thesis
      by (subst loop.simps) simp
  qed
  show "effects (verifyChunk_with B p start end' dp pa w) =
     ?es @
     (if 0 < (end' - start) mod B
      then (let x = ToInt32 (fl_add (of_int (replay ?es pa ! w))
                   (fl_div (of_nat ((end' - start) mod B)) ?T))
            in [Store w x, Notify w])
      else []) @
     [PostMessage Completed_msg]"
    using assms(2) by (simp add: verifyChunk_with_def Let_def emit_def flush_def run)
  show "progressArray (verifyChunk_with B p start end' dp pa w) =
     replay (effects (verifyChunk_with B p start end' dp pa w)) pa"
    using assms(2) by (simp add: verifyChunk_with_def Let_def emit_def flush_def run)
qed

text \<open>Either every check of the chunk passes or there is a first index whose check fails.\<close>

lemma first_failure:
  obtains "\<forall>j. start \<le> j \<and> j < end' \<longrightarrow> \<not> mismatch p (valueAt j m) dp"
  | k where "start \<le> k" "k < end'" "mismatch p (valueAt k m) dp"
      "\<forall>j. start \<le> j \<and> j < k \<longrightarrow> \<not> mismatch p (valueAt j m) dp"
proof (cases "\<exists>j. start \<le> j \<and> j < end' \<and> mismatch p (valueAt j m) dp")
  case False
  then show ?thesis
    using that(1) by blast
next
  case True
  define k where "k = (LEAST j. start \<le> j \<and> j < end' \<and> mismatch p (valueAt j m) dp)"
  have k: "start \<le> k \<and> k < end' \<and> mismatch p (valueAt k m) dp"
    unfolding k_def using True by (rule LeastI_ex)
  have "\<not> mismatch p (valueAt j m) dp" if "start \<le> j" "j < k" for j
  proof
    assume "mismatch p (valueAt j m) dp"
    then have "k \<le> j"
      unfolding k_def using that k by (intro Least_le) simp
    with that(2) show False
      by simp
  qed
  with k show ?thesis
    using that(2) by blast
qed

section \<open>The equivalence check and the early exit\<close>

lemma mismatch_codec_below: "0 < c \<Longrightarrow> mismatch (codec_below c) v dp = (c \<le> v)"
  by (auto simp: mismatch_def codec_below_def serialize_def)

lemma valueAt_0 [simp]: "valueAt 0 m = 0"
  by (simp add: valueAt_def intPart_def fracPart_def fl_div_def fl_add_def js_rem_def
      ToInt32_def js_truncate_def)

lemma valueAt_1: "valueAt (Suc 0) (Math_pow10 0) = 1"
  by code_simp

text \<open>
  C1. For a chunk holding the single index \<open>i\<close>, the worker reports completion exactly
  when both conditions of the check hold for the value of \<open>i\<close>: the value read back
  from JSON equals the serialized value, and the serialized value formats to the same
  text as the original value. It reports the mismatch exactly when one of them fails.
\<close>

theorem check_passes_iff:
  assumes "dp \<le> 100" and "w < length pa"
  shows "let v = valueAt i (Math_pow10 dp);
             serialized = Number p (toFixed p v dp);
             deserialized = JSON_roundtrip p serialized;
             both = (serialized = deserialized \<and> toFixed p serialized dp = toFixed p v dp);
             es = effects (verifyChunk p i (Suc i) dp pa w)
         in (messages es = [Completed_msg]) = both \<and>
            (messages es = [Error_msg v serialized deserialized]) = (\<not> both)"
proof (cases "mismatch p (valueAt i (Math_pow10 dp)) dp")
  case True
  have "effects (verifyChunk p i (Suc i) dp pa w) =
     [Check i, PostMessage (Error_msg (valueAt i (Math_pow10 dp))
        (serialize p (valueAt i (Math_pow10 dp)) dp)
        (JSON_roundtrip p (serialize p (valueAt i (Math_pow10 dp)) dp)))]"
    unfolding verifyChunk_def using assms True
    by (subst verifyChunk_with_fail [where k = i]) auto
  with True show ?thesis
    by (auto simp: Let_def mismatch_def serialize_def)
next
  case False
  have "messages (effects (verifyChunk p i (Suc i) dp pa w)) = [Completed_msg]"
    unfolding verifyChunk_def using assms False
    by (subst verifyChunk_with_pass) (auto simp: less_Suc_eq Let_def)
  with False show ?thesis
    by (auto simp: Let_def mismatch_def serialize_def)
qed

theorem check_passes_iff_witness:
  "messages (effects (verifyChunk (codec_below (1 / 2)) 0 1 0 [0] 0)) = [Completed_msg] \<and>
   messages (effects (verifyChunk (codec_below (1 / 2)) 1 (Suc 1) 0 [0] 0)) = [Error_msg 1 0 0]"
  using check_passes_iff [of 0 0 "[0]" 0 "codec_below (1 / 2)"]
    check_passes_iff [of 0 0 "[0]" 1 "codec_below (1 / 2)"]
  by (simp add: Let_def codec_below_def valueAt_1)

text \<open>
  C4. Fail-fast: when \<open>k\<close> is the first index of the chunk whose check fails, the worker
  posts exactly one message, an error message, as the last thing it does, never a
  completion, and the loop body was entered for the indices from \<open>start\<close> to \<open>k\<close> only.
  The chunk ends at \<open>2^53\<close> or before, where the counter of the loop is exact.
\<close>

theorem fail_fast:
  assumes "dp \<le> 100" and "w < length pa" and "start \<le> k" and "k < end'"
    and "end' \<le> 2 ^ 53"
    and "\<forall>j. start \<le> j \<and> j < k \<longrightarrow> \<not> mismatch p (valueAt j (Math_pow10 dp)) dp"
    and "mismatch p (valueAt k (Math_pow10 dp)) dp"
  shows "let es = effects (verifyChunk p start end' dp pa w)
         in (\<exists>v s d. messages es = [Error_msg v s d] \<and> last es = PostMessage (Error_msg v s d))
            \<and> checks es = [start..<Suc k]"
  unfolding verifyChunk_def Let_def verifyChunk_with_fail [OF assms(1-4) assms(6,7)]
  using assms(3) by simp

theorem fail_fast_witness:
  "let es = effects (verifyChunk (codec_below (1 / 2)) 0 10 0 [0] 0)
   in (\<exists>v s d. messages es = [Error_msg v s d] \<and> last es = PostMessage (Error_msg v s d))
      \<and> checks es = [0..<Suc 1]"
  using fail_fast [of 0 0 "[0]" 0 1 10 "codec_below (1 / 2)"]
  by (simp add: mismatch_codec_below valueAt_1 less_Suc_eq)

section \<open>Messages, worker faults and boundary values\<close>

lemma worker_events_pass_effects [simp]:
  "worker_events w' (concat (map (pass_effects B start T w) js) @ es) = worker_events w' es"
  by (induction js) (auto simp: pass_effects_def)






lemma mismatch_codec_lossy [simp]: "mismatch codec_lossy v dp"
  by (simp add: mismatch_def codec_lossy_def)

lemma codec_lossy_simps [simp]:
  "serialize codec_lossy v dp = 0" "JSON_roundtrip codec_lossy x = x + 1"
  by (simp_all add: codec_lossy_def serialize_def)



lemma verifyChunk_throw:
  assumes "100 < dp" and "start < end'"
  shows "effects (verifyChunk p start end' dp pa w) = [Check start, Uncaught RangeError]"
  using assms
  by (simp add: verifyChunk_def verifyChunk_with_def Let_def loop.simps [of _ _ _ _ _ _ _ _ start]
      iteration_throw emit_def)

text \<open>
  C6 fails on the code. With 101 fractional digits \<open>toFixed\<close> throws at the first index:
  the worker posts nothing and exits with code 1. The coordinator prints the error and
  the exit code, and then, every worker having exited, the success lines.
\<close>

theorem worker_fault_ends_in_success:
  "let es = effects (verifyChunk p 0 1 101 [0] 0);
       c = verifyRangeParallel totalN 1 (worker_events 0 es)
   in es = [Check 0, Uncaught RangeError] \<and>
      worker_events 0 es = [Error_event 0 RangeError, Exit 0 1] \<and>
      console c = [Worker_error RangeError, Worker_stopped 1, All_tests_passed totalN] \<and>
      status c = Finished"
  by (simp add: verifyChunk_throw verifyRangeParallel_def handle_def print_def)

text \<open>
  C7 fails on the code. For \<open>maxInteger = 100\<close> and two fractional digits there are
  9999 indices, the last chunk ends before index 9999, and the last index verified,
  9998, has the value 99.98; the value 99.99 belongs to index 9999, which no worker
  visits. Index 0 has the value 0.00.
\<close>

theorem last_verified_value_ends_in_8:
  "totalNumbers 100 2 = 9999 \<and>
   index_of (chunk_end (totalNumbers 100 2) 4 3) = 9999 \<and>
   toFixed_js (valueAt 0 (Math_pow10 2)) 2 = Some ''0.00'' \<and>
   toFixed_js (valueAt 9998 (Math_pow10 2)) 2 = Some ''99.98'' \<and>
   toFixed_js (valueAt 9999 (Math_pow10 2)) 2 = Some ''99.99''"
  by code_simp

text \<open>
  C2 fails on the code. \<open>| 0\<close> converts the quotient to a signed 32-bit integer: for
  index \<open>2^31\<close> and no fractional digits the integer part is \<open>-2^31\<close>, not the quotient
  \<open>2^31\<close>, and index 300000000000 with two digits has the value -1294967296.00
  instead of 3000000000.00.
\<close>

theorem intPart_wraps:
  "intPart 2147483648 (Math_pow10 0) = - 2147483648 \<and>
   (2147483648::nat) div 10 ^ 0 = 2147483648 \<and>
   valueAt 2147483648 (Math_pow10 0) = - 2147483648 \<and>
   toFixed_js (valueAt 300000000000 (Math_pow10 2)) 2 = Some ''-1294967296.00''"
  by code_simp

section \<open>The partition\<close>










section \<open>Progress reporting\<close>

lemma stores_pass_effects:
  "stores w (concat (map (pass_effects B start T w) js)) =
     map (batchValue start T) (filter (\<lambda>j. Suc (j - start) mod B = 0) js)"
  by (induction js) (auto simp: pass_effects_def)

lemma replay_nth:
  "w < length pa \<Longrightarrow> replay es pa ! w = last (pa ! w # stores w es)"
proof (induction es arbitrary: pa)
  case Nil
  then show ?case by simp
next
  case (Cons e es)
  show ?case
  proof (cases e)
    case (Store w' x)
    with Cons show ?thesis
      by (cases "w' = w") simp_all
  qed (use Cons in simp_all)
qed

lemma totalInChunk_ge_1:
  assumes "start < end'"
  shows "1 \<le> fl_sub (of_nat end') (of_nat start)"
proof -
  have "Suc start \<le> end'"
    using assms by simp
  then have "(of_nat (Suc start) :: rat) \<le> of_nat end'"
    by (simp only: of_nat_le_iff)
  then have "(1::rat) \<le> of_nat end' - of_nat start"
    by simp
  then have "round53 1 \<le> round53 (of_nat end' - of_nat start)"
    by (intro round53_mono) simp_all
  then show ?thesis
    by (simp add: fl_sub_def)
qed

lemma batch_ratio:
  assumes "start \<le> j" and "j < end'"
  shows "0 \<le> fl_div (fl_sub (of_nat j) (of_nat start)) (fl_sub (of_nat end') (of_nat start))"
    and "fl_div (fl_sub (of_nat j) (of_nat start)) (fl_sub (of_nat end') (of_nat start)) \<le> 1"
proof -
  let ?A = "fl_sub (of_nat j) (of_nat start)" and ?T = "fl_sub (of_nat end') (of_nat start)"
  have T: "1 \<le> ?T"
    using assms by (intro totalInChunk_ge_1) simp
  have j: "(0::rat) \<le> of_nat j - of_nat start" "(of_nat j - of_nat start :: rat) \<le> of_nat end' - of_nat start"
    using assms by simp_all
  have A: "0 \<le> ?A" "?A \<le> ?T"
    using j by (simp_all add: fl_sub_def round53_nonneg round53_mono)
  then have "0 \<le> ?A / ?T" "?A / ?T \<le> 1"
    using T by simp_all
  then have "0 \<le> round53 (?A / ?T)" "round53 (?A / ?T) \<le> round53 1"
    by (simp_all only: round53_nonneg round53_mono)
  then show "0 \<le> fl_div ?A ?T" "fl_div ?A ?T \<le> 1"
    by (simp_all add: fl_div_def)
qed

lemma batch_ratio_mono:
  assumes "start \<le> j" and "j \<le> j'" and "j' < end'"
  shows "fl_div (fl_sub (of_nat j) (of_nat start)) (fl_sub (of_nat end') (of_nat start))
     \<le> fl_div (fl_sub (of_nat j') (of_nat start)) (fl_sub (of_nat end') (of_nat start))"
proof -
  let ?T = "fl_sub (of_nat end') (of_nat start)"
  have T: "1 \<le> ?T"
    using assms by (intro totalInChunk_ge_1) simp
  have j: "(0::rat) \<le> of_nat j - of_nat start" "(of_nat j - of_nat start :: rat) \<le> of_nat j' - of_nat start"
    using assms by simp_all
  have A: "0 \<le> fl_sub (of_nat j) (of_nat start)"
    "fl_sub (of_nat j) (of_nat start) \<le> fl_sub (of_nat j') (of_nat start)"
    using j by (simp_all add: fl_sub_def round53_nonneg round53_mono)
  then have "0 \<le> fl_sub (of_nat j) (of_nat start) / ?T"
    "fl_sub (of_nat j) (of_nat start) / ?T \<le> fl_sub (of_nat j') (of_nat start) / ?T"
    using T by (simp_all add: divide_right_mono)
  then show ?thesis
    unfolding fl_div_def by (rule round53_mono)
qed

text \<open>The value stored at a batch boundary, before the conversion to 32 bits.\<close>

lemma scaled_bounds:
  assumes "0 \<le> q" and "q \<le> 1"
  shows "0 \<le> \<lfloor>fl_mul q 1000000\<rfloor>" and "\<lfloor>fl_mul q 1000000\<rfloor> \<le> 1000000"
proof -
  have "0 \<le> q * 1000000" "q * 1000000 \<le> 1000000"
    using assms by simp_all
  then have "0 \<le> round53 (q * 1000000)" "round53 (q * 1000000) \<le> round53 1000000"
    by (simp_all only: round53_nonneg round53_mono)
  then have "0 \<le> fl_mul q 1000000" "fl_mul q 1000000 \<le> 1000000"
    by (simp_all add: fl_mul_def round53_numeral)
  then show "0 \<le> \<lfloor>fl_mul q 1000000\<rfloor>" "\<lfloor>fl_mul q 1000000\<rfloor> \<le> 1000000"
    by (simp_all add: floor_le_iff) 
qed

lemma scaled_mono:
  assumes "0 \<le> q" and "q \<le> q'"
  shows "\<lfloor>fl_mul q 1000000\<rfloor> \<le> \<lfloor>fl_mul q' 1000000\<rfloor>"
proof -
  have "0 \<le> q * 1000000" "q * 1000000 \<le> q' * 1000000"
    using assms by simp_all
  then have "round53 (q * 1000000) \<le> round53 (q' * 1000000)"
    by (rule round53_mono)
  then show ?thesis
    by (simp add: fl_mul_def floor_mono)
qed

lemma batchValue_eq:
  assumes "start \<le> j" and "j < end'"
  shows "batchValue start (fl_sub (of_nat end') (of_nat start)) j =
     \<lfloor>fl_mul (fl_div (fl_sub (of_nat j) (of_nat start)) (fl_sub (of_nat end') (of_nat start)))
        1000000\<rfloor>"
proof -
  let ?q = "fl_div (fl_sub (of_nat j) (of_nat start)) (fl_sub (of_nat end') (of_nat start))"
  have "0 \<le> \<lfloor>fl_mul ?q 1000000\<rfloor>" "\<lfloor>fl_mul ?q 1000000\<rfloor> < 2 ^ 31"
    using scaled_bounds [OF batch_ratio [OF assms]] by simp_all
  then show ?thesis
    by (simp add: batchValue_def Math_floor_def ToInt32_of_int)
qed

lemma batchValue_bounds:
  assumes "start \<le> j" and "j < end'"
  shows "0 \<le> batchValue start (fl_sub (of_nat end') (of_nat start)) j"
    and "batchValue start (fl_sub (of_nat end') (of_nat start)) j \<le> 1000000"
  using scaled_bounds [OF batch_ratio [OF assms]] by (simp_all add: batchValue_eq [OF assms])

lemma batchValue_mono:
  assumes "start \<le> j" and "j \<le> j'" and "j' < end'"
  shows "batchValue start (fl_sub (of_nat end') (of_nat start)) j
     \<le> batchValue start (fl_sub (of_nat end') (of_nat start)) j'"
proof -
  have j: "j < end'" and j': "start \<le> j'"
    using assms by simp_all
  show ?thesis
    unfolding batchValue_eq [OF assms(1) j] batchValue_eq [OF j' assms(3)]
    using batch_ratio(1) [OF assms(1) j] batch_ratio_mono [OF assms] by (rule scaled_mono)
qed

lemma batch_stores:
  fixes B :: nat
  assumes "start \<le> a" and "k \<le> end'"
  defines "bs \<equiv> map (batchValue start (fl_sub (of_nat end') (of_nat start)))
     (filter (\<lambda>j. Suc (j - start) mod B = 0) [a..<k])"
  shows "sorted bs" and "\<forall>x\<in>set bs. 0 \<le> x \<and> x \<le> 1000000"
proof -
  let ?f = "batchValue start (fl_sub (of_nat end') (of_nat start))"
  let ?js = "filter (\<lambda>j. Suc (j - start) mod B = 0) [a..<k]"
  have in_range: "start \<le> j \<and> j < end'" if "j \<in> set ?js" for j
    using that assms(1,2) by auto
  have "sorted_wrt (\<le>) ?js"
    by (intro sorted_wrt_filter) simp
  then have "sorted_wrt (\<lambda>x y. ?f x \<le> ?f y) ?js"
  proof (rule sorted_wrt_mono_rel [rotated])
    fix x y
    assume "x \<in> set ?js" "y \<in> set ?js" "x \<le> y"
    then show "?f x \<le> ?f y"
      using in_range [of x] in_range [of y] by (intro batchValue_mono) simp_all
  qed
  then show "sorted bs"
    by (simp add: bs_def sorted_map)
  show "\<forall>x\<in>set bs. 0 \<le> x \<and> x \<le> 1000000"
    unfolding bs_def using in_range batchValue_bounds by (auto simp del: set_filter)
qed

lemma sorted_le_last: "sorted xs \<Longrightarrow> y \<in> set xs \<Longrightarrow> y \<le> last (xs :: int list)"
  by (induction xs) auto

text \<open>The closing update never lowers a slot that holds a value of the progress scale.\<close>

lemma flush_value:
  assumes "0 \<le> s" and "s \<le> 1000000" and "bp < 10000000" and "1 \<le> T"
  shows "s \<le> ToInt32 (fl_add (of_int s) (fl_div (of_nat bp) T))"
proof -
  let ?f = "fl_div (of_nat bp) T"
  have "(0::rat) \<le> of_nat bp / T" "of_nat bp / T \<le> of_nat 10000000"
  proof -
    show "(0::rat) \<le> of_nat bp / T"
      using assms(4) by simp
    have "of_nat bp / T \<le> of_nat bp / 1"
      using assms(4) by (intro divide_left_mono) simp_all
    also have "(of_nat bp / 1 :: rat) \<le> of_nat 10000000"
      using assms(3) by (simp only: div_by_1 of_nat_le_iff less_imp_le)
    finally show "of_nat bp / T \<le> of_nat 10000000" .
  qed
  then have "0 \<le> round53 (of_nat bp / T)" "round53 (of_nat bp / T) \<le> round53 (of_nat 10000000)"
    by (simp_all only: round53_nonneg round53_mono)
  then have f: "0 \<le> ?f" "?f \<le> 10000000"
    by (simp_all add: fl_div_def round53_numeral)
  have s: "(0::rat) \<le> of_int s" "(of_int s :: rat) \<le> 1000000"
    using assms(1,2) by simp_all
  have sn: "(of_int s :: rat) = of_nat (nat s)"
    using assms(1) by simp
  have "round53 (of_int s) = of_int s"
    unfolding sn using assms(2) by (intro round53_nat) simp
  moreover have "round53 (of_int s) \<le> round53 (of_int s + ?f)"
    using s(1) f(1) by (intro round53_mono) simp_all
  ultimately have lo: "of_int s \<le> fl_add (of_int s) ?f"
    by (simp add: fl_add_def)
  have "round53 (of_int s + ?f) \<le> round53 11000000"
    using s f by (intro round53_mono) simp_all
  then have hi: "fl_add (of_int s) ?f \<le> 11000000"
    by (simp add: fl_add_def round53_numeral)
  have "ToInt32 (fl_add (of_int s) ?f) = \<lfloor>fl_add (of_int s) ?f\<rfloor>"
    using lo hi s(1) by (intro ToInt32_floor) simp_all
  then show ?thesis
    using lo by (simp add: le_floor_iff)
qed

lemma stores_sorted:
  fixes B :: nat
  assumes "dp \<le> 100" and "w < length pa" and "pa ! w = 0" and "0 < B" and "B \<le> 10000000"
  shows "sorted (0 # stores w (effects (verifyChunk_with B p start end' dp pa w)))"
proof -
  let ?T = "fl_sub (of_nat end') (of_nat start)"
  let ?P = "\<lambda>j. Suc (j - start) mod B = 0"
  note w = assms(2) and z = assms(3)
  have batch: "sorted (0 # map (batchValue start ?T) (filter ?P [start..<k]))"
    "\<forall>x\<in>set (0 # map (batchValue start ?T) (filter ?P [start..<k])). 0 \<le> x \<and> x \<le> 1000000"
    if "k \<le> end'" for k
    using batch_stores [where B = B and a = start and start = start, OF le_refl that]
    by simp_all
  consider "\<forall>j. start \<le> j \<and> j < end' \<longrightarrow> \<not> mismatch p (valueAt j (Math_pow10 dp)) dp"
    | k where "start \<le> k" "k < end'" "mismatch p (valueAt k (Math_pow10 dp)) dp"
      "\<forall>j. start \<le> j \<and> j < k \<longrightarrow> \<not> mismatch p (valueAt j (Math_pow10 dp)) dp"
    by (rule first_failure)
  then show ?thesis
  proof cases
    case 1
    let ?es = "concat (map (pass_effects B start ?T w) [start..<end'])"
    let ?bs = "map (batchValue start ?T) (filter ?P [start..<end'])"
    let ?s = "replay ?es pa ! w"
    have s: "?s = last (0 # ?bs)"
      using w by (simp add: replay_nth z stores_pass_effects)
    show ?thesis
    proof (cases "0 < (end' - start) mod B")
      case False
      then show ?thesis
        unfolding verifyChunk_with_pass(1) [OF assms(1) w 1]
        using batch(1) [of end'] by (simp add: stores_pass_effects)
    next
      case True
      then have lt: "start < end'"
        by (cases "start < end'") simp_all
      have bp: "(end' - start) mod B < 10000000"
        using assms(4,5) mod_less_divisor [of B "end' - start"] by linarith
      let ?x = "ToInt32 (fl_add (of_int ?s) (fl_div (of_nat ((end' - start) mod B)) ?T))"
      have "last (0 # ?bs) \<in> set (0 # ?bs)"
        by (rule last_in_set) simp
      then have "0 \<le> ?s" "?s \<le> 1000000"
        using batch(2) [of end'] by (simp_all only: s)
      then have sx: "?s \<le> ?x"
        using totalInChunk_ge_1 [OF lt] bp by (intro flush_value)
      have ys: "y \<le> ?s" if "y \<in> set (0 # ?bs)" for y
        unfolding s using batch(1) [of end'] that by (intro sorted_le_last) simp_all
      have "\<forall>y\<in>set (0 # ?bs). y \<le> ?x"
      proof
        fix y
        assume "y \<in> set (0 # ?bs)"
        then have "y \<le> ?s"
          by (rule ys)
        then show "y \<le> ?x"
          using sx by (rule order_trans)
      qed
      then have "sorted ((0 # ?bs) @ [?x])"
        using batch(1) [of end'] by (simp only: sorted_append) simp
      then show ?thesis
        unfolding verifyChunk_with_pass(1) [OF assms(1) w 1]
        using True by (simp add: stores_pass_effects Let_def)
    qed
  next
    case 2
    show ?thesis
      unfolding verifyChunk_with_fail [OF assms(1) w 2(1,2,4,3)]
      using batch(1) [of k] 2(2) by (simp add: stores_pass_effects)
  qed
qed

text \<open>The batch boundaries of a chunk: every \<open>B\<close>-th index, counted from \<open>start\<close>.\<close>

lemma boundaries:
  assumes "0 < B"
  shows "filter (\<lambda>j. Suc (j - start) mod B = 0) [start..<start + n] =
     map (\<lambda>k. start + k * B - 1) [1..<Suc (n div B)]"
proof (induction n)
  case 0
  then show ?case
    using assms by simp
next
  case (Suc n)
  have upt: "[start..<start + Suc n] = [start..<start + n] @ [start + n]"
    by simp
  show ?case
  proof (cases "Suc n mod B = 0")
    case True
    then have d: "Suc n div B = Suc (n div B)"
      by (simp add: div_Suc)
    have "Suc n = Suc n div B * B"
      using True by (simp add: mod_eq_0_iff_dvd)
    then have "start + Suc (n div B) * B - 1 = start + n"
      unfolding d by simp
    then show ?thesis
      unfolding upt d using True Suc.IH by simp
  next
    case False
    then have "Suc n div B = n div B"
      by (simp add: div_Suc)
    then show ?thesis
      unfolding upt using False Suc.IH by simp
  qed
qed

text \<open>What a worker whose checks all pass stores into its slot, and what it leaves there.\<close>

lemma pass_stores:
  fixes B :: nat
  assumes "dp \<le> 100" and "w < length pa" and "0 < B"
    and "\<forall>j. start \<le> j \<and> j < start + n \<longrightarrow> \<not> mismatch p (valueAt j (Math_pow10 dp)) dp"
  defines "T \<equiv> fl_sub (of_nat (start + n)) (of_nat start)"
  defines "bs \<equiv> map (\<lambda>k. batchValue start T (start + k * B - 1)) [1..<Suc (n div B)]"
  defines "r \<equiv> verifyChunk_with B p start (start + n) dp pa w"
  shows "stores w (effects r) =
       bs @ (if 0 < n mod B
             then [ToInt32 (fl_add (of_int (last (pa ! w # bs))) (fl_div (of_nat (n mod B)) T))]
             else [])"
    and "progressArray r ! w = last (pa ! w # stores w (effects r))"
    and "messages (effects r) = [Completed_msg]"
    and "length (checks (effects r)) = n"
proof -
  let ?es = "concat (map (pass_effects B start T w) [start..<start + n])"
  have bs: "stores w ?es = bs"
    by (simp add: stores_pass_effects boundaries [OF assms(3)] bs_def comp_def)
  have slot: "replay ?es pa ! w = last (pa ! w # bs)"
    using assms(2) by (simp add: replay_nth bs)
  note e = verifyChunk_with_pass(1) [OF assms(1,2,4), of B, folded T_def r_def]
  show "stores w (effects r) =
       bs @ (if 0 < n mod B
             then [ToInt32 (fl_add (of_int (last (pa ! w # bs))) (fl_div (of_nat (n mod B)) T))]
             else [])"
    unfolding e by (simp add: bs slot Let_def)
  show "progressArray r ! w = last (pa ! w # stores w (effects r))"
    unfolding r_def verifyChunk_with_pass(2) [OF assms(1,2,4)]
    using assms(2) by (rule replay_nth)
  show "messages (effects r) = [Completed_msg]"
    unfolding e by (simp add: Let_def)
  show "length (checks (effects r)) = n"
    unfolding e by (simp add: Let_def)
qed

lemma mismatch_codec_exact [simp]: "\<not> mismatch codec_exact v dp"
  by (simp add: mismatch_def codec_exact_def serialize_def)

text \<open>
  C9. The coordinator hands every worker a zeroed slot, and the values the worker stores
  into its slot, in the order of the stores, never decrease: each store leaves the slot
  at least as large as it was. The chunk ends at \<open>2^53\<close> or before.
\<close>

theorem progress_monotone:
  assumes "dp \<le> 100" and "w < numCPUs" and "end' \<le> 2 ^ 53"
  shows "progressBuffer0 numCPUs ! w = 0 \<and>
     sorted (progressBuffer0 numCPUs ! w #
       stores w (effects (verifyChunk p start end' dp (progressBuffer0 numCPUs) w)))"
proof -
  have w: "w < length (progressBuffer0 numCPUs)" and z: "progressBuffer0 numCPUs ! w = 0"
    using assms(2) by (simp_all add: progressBuffer0_def)
  have "sorted (0 # stores w (effects (verifyChunk_with 10000000 p start end' dp
     (progressBuffer0 numCPUs) w)))"
    using assms(1) w z by (rule stores_sorted) simp_all
  then show ?thesis
    by (simp only: z verifyChunk_def simp_thms)
qed

lemma batch_25:
  "batchValue 0 (fl_sub 25000000 0) 9999999 = 399999"
  "batchValue 0 (fl_sub 25000000 0) 19999999 = 799999"
  "ToInt32 (fl_add 799999 (fl_div 5000000 (fl_sub 25000000 0))) = 799999"
  by code_simp+

lemma stores_25:
  "stores 0 (effects (verifyChunk codec_exact 0 25000000 6 (progressBuffer0 1) 0)) =
     [399999, 799999, 799999]"
proof -
  have "stores 0 (effects (verifyChunk_with 10000000 codec_exact 0 (0 + 25000000) 6 [0] 0)) =
     [399999, 799999, 799999]"
    by (subst pass_stores(1)) (simp_all add: batch_25 upt_rec)
  then show ?thesis
    by (simp add: verifyChunk_def progressBuffer0_def)
qed

theorem progress_monotone_witness:
  "progressBuffer0 1 ! 0 = 0 \<and>
   stores 0 (effects (verifyChunk codec_exact 0 25000000 6 (progressBuffer0 1) 0)) =
     [399999, 799999, 799999] \<and>
   sorted (progressBuffer0 1 ! 0 #
     stores 0 (effects (verifyChunk codec_exact 0 25000000 6 (progressBuffer0 1) 0)))"
proof -
  have "progressBuffer0 1 ! 0 = 0 \<and>
     sorted (progressBuffer0 1 ! 0 #
       stores 0 (effects (verifyChunk codec_exact 0 25000000 6 (progressBuffer0 1) 0)))"
    by (rule progress_monotone) simp_all
  then show ?thesis
    using stores_25 by blast
qed

section \<open>Progress at completion\<close>

text \<open>
  Within a chunk that ends at \<open>2^53\<close> or before, the ratio of a batch write is at most
  the largest double below 1, and its scaled value stays below the full scale.
\<close>

lemma round53_below_1:
  "round53 (9007199254740991 / 9007199254740992) = 9007199254740991 / 9007199254740992"
  "round53 (9007199254740991 / 9007199254740992 * 1000000) = 8589934591999999 / 8589934592"
  by code_simp+

lemma batch_ratio_below_1:
  assumes "start \<le> j" and "j < end'" and "end' \<le> 2 ^ 53"
  shows "fl_div (fl_sub (of_nat j) (of_nat start)) (fl_sub (of_nat end') (of_nat start))
     \<le> 9007199254740991 / 9007199254740992"
proof -
  define m n where "m = j - start" and "n = end' - start"
  have mn: "m < n" "n \<le> 2 ^ 53" "m \<le> 2 ^ 53"
    using assms by (simp_all add: m_def n_def)
  have A: "fl_sub (of_nat j) (of_nat start) = of_nat m"
    using assms(1) mn(3) by (simp add: fl_sub_def m_def of_nat_diff [symmetric] round53_nat del: of_nat_diff)
  have T: "fl_sub (of_nat end') (of_nat start) = of_nat n"
    using assms(1,2) mn(2) by (simp add: fl_sub_def n_def of_nat_diff [symmetric] round53_nat del: of_nat_diff)
  have n: "(0::rat) < of_nat n" "(of_nat n :: rat) \<le> 9007199254740992"
    using mn(1) of_nat_mono [OF mn(2), where 'a = rat] by simp_all
  have "(of_nat m :: rat) \<le> of_nat n - 1"
    using mn(1) by (simp add: of_nat_diff [symmetric] del: of_nat_diff)
  then have "(of_nat m :: rat) / of_nat n \<le> (of_nat n - 1) / of_nat n"
    using n(1) by (simp add: divide_right_mono)
  also have "\<dots> = 1 - 1 / of_nat n"
    using n(1) by (simp add: field_simps)
  also have "\<dots> \<le> 1 - 1 / 9007199254740992"
    using n by (simp add: field_simps)
  finally have "(of_nat m :: rat) / of_nat n \<le> 9007199254740991 / 9007199254740992"
    by simp
  moreover have "(0::rat) \<le> of_nat m / of_nat n"
    by simp
  ultimately have "round53 (of_nat m / of_nat n) \<le> round53 (9007199254740991 / 9007199254740992)"
    by (intro round53_mono)
  then show ?thesis
    by (simp add: A T fl_div_def round53_below_1)
qed

lemma batchValue_below_full_scale:
  assumes "start \<le> j" and "j < end'" and "end' \<le> 2 ^ 53"
  shows "batchValue start (fl_sub (of_nat end') (of_nat start)) j \<le> 999999"
proof -
  let ?q = "fl_div (fl_sub (of_nat j) (of_nat start)) (fl_sub (of_nat end') (of_nat start))"
  have q: "0 \<le> ?q" "?q \<le> 9007199254740991 / 9007199254740992"
    using batch_ratio(1) [OF assms(1,2)] batch_ratio_below_1 [OF assms] by simp_all
  then have "0 \<le> ?q * 1000000" "?q * 1000000 \<le> 9007199254740991 / 9007199254740992 * 1000000"
    by simp_all
  then have "round53 (?q * 1000000) \<le> round53 (9007199254740991 / 9007199254740992 * 1000000)"
    by (rule round53_mono)
  then have "round53 (?q * 1000000) \<le> 8589934591999999 / 8589934592"
    by (simp only: round53_below_1)
  then have "fl_mul ?q 1000000 < 1000000"
    by (simp add: fl_mul_def)
  then have "\<lfloor>fl_mul ?q 1000000\<rfloor> < 1000000"
    by (simp add: floor_less_iff)
  then show ?thesis
    by (simp add: batchValue_eq [OF assms(1,2)])
qed

text \<open>The closing flush adds less than one to a slot below the full scale.\<close>

lemma round53_flush:
  "round53 (9999999 / 10000000) = 9007198354021067 / 9007199254740992"
  "round53 (999999 + 9007198354021067 / 9007199254740992) < 1000000"
  by code_simp+

lemma flush_below_full_scale:
  assumes "0 \<le> s" and "s \<le> 999999" and "bp < 10000000" and "10000000 \<le> T"
  shows "ToInt32 (fl_add (of_int s) (fl_div (of_nat bp) T)) \<le> 999999"
proof -
  let ?f = "fl_div (of_nat bp) T"
  have bp: "(of_nat bp :: rat) \<le> 9999999"
    using assms(3) of_nat_mono [of bp 9999999, where 'a = rat] by simp
  have "(0::rat) \<le> of_nat bp / T"
    using assms(4) by simp
  moreover have "of_nat bp / T \<le> 9999999 / 10000000"
    using assms(4) bp by (intro frac_le) simp_all
  ultimately have "0 \<le> round53 (of_nat bp / T)"
    "round53 (of_nat bp / T) \<le> round53 (9999999 / 10000000)"
    by (simp_all only: round53_nonneg round53_mono)
  then have f: "0 \<le> ?f" "?f \<le> 9007198354021067 / 9007199254740992"
    by (simp_all add: fl_div_def round53_flush)
  have s: "(0::rat) \<le> of_int s" "(of_int s :: rat) \<le> 999999"
    using assms(1,2) by simp_all
  have "0 \<le> of_int s + ?f" "of_int s + ?f \<le> 999999 + 9007198354021067 / 9007199254740992"
    using s f by simp_all
  then have "0 \<le> round53 (of_int s + ?f)"
    "round53 (of_int s + ?f) \<le> round53 (999999 + 9007198354021067 / 9007199254740992)"
    by (simp_all only: round53_nonneg round53_mono)
  then have y: "0 \<le> fl_add (of_int s) ?f" "fl_add (of_int s) ?f < 1000000"
    using round53_flush(2) by (simp_all add: fl_add_def)
  then have "ToInt32 (fl_add (of_int s) ?f) = \<lfloor>fl_add (of_int s) ?f\<rfloor>"
    by (intro ToInt32_floor) simp_all
  moreover have "\<lfloor>fl_add (of_int s) ?f\<rfloor> < 1000000"
    using y(2) by (simp add: floor_less_iff)
  ultimately show ?thesis
    by simp
qed

lemma completed_slot:
  fixes n :: nat
  assumes "dp \<le> 100" and "w < length pa" and "pa ! w = 0" and "0 < n" and "start + n \<le> 2 ^ 53"
    and "\<forall>j. start \<le> j \<and> j < start + n \<longrightarrow> \<not> mismatch p (valueAt j (Math_pow10 dp)) dp"
  shows "progressArray (verifyChunk_with 10000000 p start (start + n) dp pa w) ! w \<le> 999999"
    and "n < 10000000 \<Longrightarrow>
       progressArray (verifyChunk_with 10000000 p start (start + n) dp pa w) ! w = 1"
proof -
  let ?B = "10000000 :: nat"
  let ?T = "fl_sub (of_nat (start + n)) (of_nat start)"
  let ?bs = "map (\<lambda>k. batchValue start ?T (start + k * ?B - 1)) [1..<Suc (n div ?B)]"
  let ?r = "verifyChunk_with ?B p start (start + n) dp pa w"
  have B: "0 < ?B"
    by simp
  note st = pass_stores(1) [OF assms(1,2) B assms(6)]
  note fin = pass_stores(2) [OF assms(1,2) B assms(6)]
  have T: "?T = of_nat n"
    using assms(5) by (simp add: fl_sub_def round53_nat)
  have bs: "0 \<le> x \<and> x \<le> 999999" if "x \<in> set (0 # ?bs)" for x
  proof (cases "x = 0")
    case False
    then have "x \<in> set ?bs"
      using that by simp
    then obtain k where kk: "k \<in> set [1..<Suc (n div ?B)]"
      and x: "x = batchValue start ?T (start + k * ?B - 1)"
      unfolding set_map by blast
    have k: "1 \<le> k" "k \<le> n div ?B"
      using kk by (simp_all only: set_upt atLeastLessThan_iff less_Suc_eq_le)
    have "k * ?B \<le> n div ?B * ?B"
      using k(2) by (rule mult_le_mono1)
    also have "\<dots> \<le> n"
      by simp
    finally have j: "start \<le> start + k * ?B - 1" "start + k * ?B - 1 < start + n"
      using k(1) by simp_all
    show ?thesis
      unfolding x using batchValue_bounds(1) [OF j] batchValue_below_full_scale [OF j assms(5)]
      by simp
  qed simp
  have s: "0 \<le> last (0 # ?bs)" "last (0 # ?bs) \<le> 999999"
    using bs [OF last_in_set [of "0 # ?bs"]] by simp_all
  have small: "progressArray ?r ! w = 1" if "n < 10000000"
  proof -
    have d: "n div ?B = 0" "n mod ?B = n"
      using that by simp_all
    have "fl_div (of_nat n) ?T = 1"
      unfolding T using assms(4) by (simp add: fl_div_def)
    then have "ToInt32 (fl_add (of_int 0) (fl_div (of_nat n) ?T)) = 1"
      by (simp add: fl_add_def ToInt32_def js_truncate_def)
    then show ?thesis
      unfolding fin st d using assms(3,4) by simp
  qed
  show "progressArray ?r ! w \<le> 999999"
  proof (cases "0 < n mod ?B")
    case False
    then show ?thesis
      unfolding fin st using s(2) assms(3) by simp
  next
    case True
    show ?thesis
    proof (cases "n < ?B")
      case True
      then show ?thesis
        by (simp only: small)
    next
      case False
      then have "(of_nat ?B :: rat) \<le> of_nat n"
        by (simp only: of_nat_le_iff)
      then have "10000000 \<le> ?T"
        unfolding T by simp
      then have "ToInt32 (fl_add (of_int (last (0 # ?bs))) (fl_div (of_nat (n mod ?B)) ?T)) \<le> 999999"
        using s by (intro flush_below_full_scale) simp_all
      then show ?thesis
        unfolding fin st using True assms(3) by simp
    qed
  qed
  show "progressArray ?r ! w = 1" if "n < 10000000"
    using that by (rule small)
qed

text \<open>
  C8. The value a worker writes after a batch counts the indices before the one just
  checked, one less than the number of indices done. On the chunk \<open>[0, 10000000)\<close>, whose
  ten million checks all pass, the only write to the slot is 999999, where the fraction of
  indices done, ten million of ten million, scales to 1000000.
\<close>

theorem batch_write_counts_one_short:
  "length (checks (effects (verifyChunk codec_exact 0 10000000 6 [0] 0))) = 10000000 \<and>
   stores 0 (effects (verifyChunk codec_exact 0 10000000 6 [0] 0)) = [999999] \<and>
   messages (effects (verifyChunk codec_exact 0 10000000 6 [0] 0)) = [Completed_msg] \<and>
   ToInt32 (Math_floor (fl_mul (fl_div 10000000 (fl_sub 10000000 0)) 1000000)) = 1000000"
proof -
  have b: "batchValue 0 (fl_sub 10000000 0) 9999999 = 999999"
    by code_simp
  have c: "ToInt32 (Math_floor (fl_mul (fl_div 10000000 (fl_sub 10000000 0)) 1000000)) = 1000000"
    by code_simp
  have "stores 0 (effects (verifyChunk_with 10000000 codec_exact 0 (0 + 10000000) 6 [0] 0)) = [999999]"
    by (subst pass_stores(1)) (simp_all add: b upt_rec)
  moreover have "length (checks (effects (verifyChunk_with 10000000 codec_exact 0 (0 + 10000000) 6 [0] 0))) = 10000000"
    by (subst pass_stores(4)) simp_all
  moreover have "messages (effects (verifyChunk_with 10000000 codec_exact 0 (0 + 10000000) 6 [0] 0)) = [Completed_msg]"
    by (subst pass_stores(3)) simp_all
  ultimately show ?thesis
    using c by (simp add: verifyChunk_def)
qed

text \<open>
  C10. A worker that is given a zeroed slot and a non-empty chunk ending at \<open>2^53\<close> or
  before, and whose checks all pass, reports completion and leaves its slot strictly below
  1000000; when the chunk is smaller than a batch of 10000000 indices, the slot is left at
  most 1.
\<close>

theorem completed_slot_below_full_scale:
  assumes "dp \<le> 100" and "w < numCPUs" and "start < end'" and "end' \<le> 2 ^ 53"
    and "\<forall>j. start \<le> j \<and> j < end' \<longrightarrow> \<not> mismatch p (valueAt j (Math_pow10 dp)) dp"
  shows "messages (effects (verifyChunk p start end' dp (progressBuffer0 numCPUs) w)) = [Completed_msg] \<and>
     progressArray (verifyChunk p start end' dp (progressBuffer0 numCPUs) w) ! w < 1000000 \<and>
     (end' - start < 10000000 \<longrightarrow>
        progressArray (verifyChunk p start end' dp (progressBuffer0 numCPUs) w) ! w \<le> 1)"
proof -
  define n where "n = end' - start"
  have e: "end' = start + n" and n: "0 < n"
    using assms(3) by (simp_all add: n_def)
  have w: "w < length (progressBuffer0 numCPUs)" and z: "progressBuffer0 numCPUs ! w = 0"
    using assms(2) by (simp_all add: progressBuffer0_def)
  have B: "0 < (10000000 :: nat)"
    by simp
  note h = assms(4,5) [unfolded e]
  have "messages (effects (verifyChunk_with 10000000 p start (start + n) dp (progressBuffer0 numCPUs) w))
      = [Completed_msg]"
    using assms(1) w B h(2) by (rule pass_stores(3))
  moreover have "progressArray (verifyChunk_with 10000000 p start (start + n) dp (progressBuffer0 numCPUs) w) ! w
      \<le> 999999"
    using assms(1) w z n h by (rule completed_slot(1))
  moreover have "progressArray (verifyChunk_with 10000000 p start (start + n) dp (progressBuffer0 numCPUs) w) ! w
      = 1" if "n < 10000000"
    using assms(1) w z n h that by (rule completed_slot(2))
  ultimately show ?thesis
    unfolding verifyChunk_def e by simp
qed

theorem completed_slot_below_full_scale_witness:
  "messages (effects (verifyChunk codec_exact 0 10 6 (progressBuffer0 1) 0)) = [Completed_msg] \<and>
   progressArray (verifyChunk codec_exact 0 10 6 (progressBuffer0 1) 0) ! 0 < 1000000 \<and>
   progressArray (verifyChunk codec_exact 0 10 6 (progressBuffer0 1) 0) ! 0 \<le> 1 \<and>
   messages (effects (verifyChunk codec_exact 0 25000000 6 (progressBuffer0 1) 0)) = [Completed_msg] \<and>
   progressArray (verifyChunk codec_exact 0 25000000 6 (progressBuffer0 1) 0) ! 0 < 1000000"
  using completed_slot_below_full_scale [of 6 0 1 0 10 codec_exact]
    completed_slot_below_full_scale [of 6 0 1 0 25000000 codec_exact]
  by simp

end
